theory Spec2Isabelle
  imports Complex_Main "HOL-Library.AList"
begin

section \<open>Data model of IntersectionObserverExample.tsx\<close>

text \<open>
  Elements and callbacks are compared by identity in the source (\<open>Map\<close> keys,
  \<open>===\<close> on functions), so both are modelled as opaque identities.
\<close>

type_synonym node = nat
type_synonym cb = nat

text \<open>The value type of the \<open>observedNodes\<close> map.\<close>

record opts =
  visibilityCallback :: cb
  stopObservingOnceVisible :: bool

text \<open>An element of the \<open>tempNodes\<close> array.\<close>

record temp =
  t_node :: node
  t_visibilityCallback :: cb
  t_stopObservingOnceVisible :: bool

text \<open>
  The browser's IntersectionObserver: the options it was constructed with and its
  list of observation targets. \<open>observe\<close> of a target that is already in the list
  does nothing, \<open>unobserve\<close> removes it, \<open>disconnect\<close> empties the list.
\<close>

record sensor =
  s_root :: node
  s_rootMargin :: "string option"
  targets :: "node list"

definition observe :: "node \<Rightarrow> sensor \<Rightarrow> sensor" where
  "observe n ob = (if n \<in> set (targets ob) then ob else ob\<lparr>targets := targets ob @ [n]\<rparr>)"

definition unobserve :: "node \<Rightarrow> sensor \<Rightarrow> sensor" where
  "unobserve n ob = ob\<lparr>targets := removeAll n (targets ob)\<rparr>"

text \<open>
  What the code does to the outside world, in order: calls on the sensor and calls of
  visibility callbacks. \<open>Invoke n c b\<close> is the call \<open>c(b)\<close> made for the registry
  entry of element \<open>n\<close>.
\<close>

datatype event = Observe node | Unobserve node | Disconnect | Invoke node cb bool

text \<open>
  The refs of one IntersectionObserverProvider. \<open>observedNodes\<close> is a JavaScript
  \<open>Map\<close>, which iterates in insertion order: an association list with
  \<open>AList.update\<close> for \<open>set\<close> (an existing key keeps its place, a new one goes to the
  end) and \<open>AList.delete\<close> for \<open>delete\<close>. \<open>initiallyVisibleElements\<close> is the counter
  held by the context object.
\<close>

record state =
  observerRef :: "sensor option"
  observedNodes :: "(node \<times> opts) list"
  tempNodes :: "temp list"
  initiallyVisibleElements :: int
  trace :: "event list"

text \<open>\<open>initiallyVisibleElements || 0\<close> of a \<open>number | undefined\<close> prop.\<close>

definition or_zero :: "int option \<Rightarrow> int" where
  "or_zero v = (case v of None \<Rightarrow> 0 | Some n \<Rightarrow> if n = 0 then 0 else n)"

definition init :: "int option \<Rightarrow> state" where
  "init ive = \<lparr>observerRef = None, observedNodes = [], tempNodes = [],
     initiallyVisibleElements = or_zero ive, trace = []\<rparr>"

section \<open>registerObserver\<close>

text \<open>\<open>observerRef.current?.unobserve(n)\<close>: a sensor call only when a sensor is there.\<close>

definition opt_unobserve :: "node \<Rightarrow> state \<Rightarrow> state" where
  "opt_unobserve n s =
     (case observerRef s of
        None \<Rightarrow> s
      | Some ob \<Rightarrow> s\<lparr>observerRef := Some (unobserve n ob), trace := trace s @ [Unobserve n]\<rparr>)"

definition opt_observe :: "node \<Rightarrow> state \<Rightarrow> state" where
  "opt_observe n s =
     (case observerRef s of
        None \<Rightarrow> s
      | Some ob \<Rightarrow> s\<lparr>observerRef := Some (observe n ob), trace := trace s @ [Observe n]\<rparr>)"

text \<open>
  The \<open>for ... of\<close> loop of the null branch: the first entry in iteration order whose
  callback is identical to the given one, if any (the loop breaks there).
\<close>

fun find_callback :: "cb \<Rightarrow> (node \<times> opts) list \<Rightarrow> node option" where
  "find_callback c [] = None"
| "find_callback c ((n, v) # es) =
     (if visibilityCallback v = c then Some n else find_callback c es)"

definition registerObserver :: "node option \<Rightarrow> cb \<Rightarrow> bool \<Rightarrow> state \<Rightarrow> state" where
  "registerObserver nd c stp s =
     (case nd of
        Some n \<Rightarrow>
          if map_of (observedNodes s) n \<noteq> None then s
          else if observerRef s = None then
            s\<lparr>tempNodes := tempNodes s @
               [\<lparr>t_node = n, t_visibilityCallback = c, t_stopObservingOnceVisible = stp\<rparr>]\<rparr>
          else
            (opt_observe n s)\<lparr>observedNodes := AList.update n
               \<lparr>visibilityCallback = c, stopObservingOnceVisible = stp\<rparr> (observedNodes s)\<rparr>
      | None \<Rightarrow>
          (case find_callback c (observedNodes s) of
             None \<Rightarrow> s
           | Some n \<Rightarrow>
               (opt_unobserve n s)\<lparr>observedNodes := AList.delete n (observedNodes s)\<rparr>))"

section \<open>The sensor's tick callback\<close>

text \<open>Step 3 of an entry: the callback call, which leaves the refs as they are.\<close>

definition invoke :: "node \<Rightarrow> opts \<Rightarrow> bool \<Rightarrow> state \<Rightarrow> state" where
  "invoke n v b s = s\<lparr>trace := trace s @ [Invoke n (visibilityCallback v) b]\<rparr>"

text \<open>Step 4 of an entry: \<open>unobserve\<close> and \<open>delete\<close>.\<close>

definition retire :: "node \<Rightarrow> state \<Rightarrow> state" where
  "retire n s = (opt_unobserve n s)\<lparr>observedNodes := AList.delete n (observedNodes s)\<rparr>"

definition tick_entry :: "node \<times> bool \<Rightarrow> state \<Rightarrow> state" where
  "tick_entry e s =
     (case map_of (observedNodes s) (fst e) of
        None \<Rightarrow> s
      | Some v \<Rightarrow>
          (let s1 = invoke (fst e) v (snd e) s
           in if snd e \<and> stopObservingOnceVisible v then retire (fst e) s1 else s1))"

text \<open>\<open>entries.forEach\<close>, inside one \<open>unstable_batchedUpdates\<close>.\<close>

fun tick :: "(node \<times> bool) list \<Rightarrow> state \<Rightarrow> state" where
  "tick [] s = s"
| "tick (e # es) s = tick es (tick_entry e s)"

section \<open>rootRef\<close>

text \<open>
  \<open>parseFloat\<close> and \<open>window.getComputedStyle\<close> belong to the browser, not to this
  repository: they are parameters. A JavaScript number is a real, an infinity or NaN.
\<close>

datatype jsnum = NaN | Num real | PosInf | NegInf

fun gt_zero :: "jsnum \<Rightarrow> bool" where
  "gt_zero (Num r) = (0 < r)"
| "gt_zero PosInf = True"
| "gt_zero _ = False"

record computedStyle =
  overflow :: string
  overflowY :: string
  overflowX :: string

record platform =
  parseFloat :: "string \<Rightarrow> jsnum"
  getComputedStyle :: "node \<Rightarrow> computedStyle"

text \<open>\<open>str.split(" ")\<close>: the pieces between single space characters.\<close>

fun split_sp :: "string \<Rightarrow> string list" where
  "split_sp [] = [[]]"
| "split_sp (x # xs) =
     (if x = CHR '' '' then [] # split_sp xs
      else (case split_sp xs of [] \<Rightarrow> [[x]] | t # ts \<Rightarrow> (x # t) # ts))"

text \<open>
  \<open>rootMargin && rootMargin.split(" ").some((value) => parseFloat(value) > 0)\<close>;
  the empty string and \<open>undefined\<close> are falsy.
\<close>

definition positive_margin :: "platform \<Rightarrow> string option \<Rightarrow> bool" where
  "positive_margin pf rm =
     (case rm of
        None \<Rightarrow> False
      | Some m \<Rightarrow> m \<noteq> [] \<and> list_ex (\<lambda>v. gt_zero (parseFloat pf v)) (split_sp m))"

definition no_overflow_auto :: "computedStyle \<Rightarrow> bool" where
  "no_overflow_auto cs =
     (overflow cs \<noteq> ''auto'' \<and> overflowY cs \<noteq> ''auto'' \<and> overflowX cs \<noteq> ''auto'')"

datatype error = OverflowError

text \<open>The body of \<open>tempNodes.current.forEach\<close>.\<close>

definition flush_one :: "temp \<Rightarrow> state \<Rightarrow> state" where
  "flush_one t s =
     (opt_observe (t_node t) s)\<lparr>observedNodes := AList.update (t_node t)
        \<lparr>visibilityCallback = t_visibilityCallback t,
         stopObservingOnceVisible = t_stopObservingOnceVisible t\<rparr> (observedNodes s)\<rparr>"

fun flush :: "temp list \<Rightarrow> state \<Rightarrow> state" where
  "flush [] s = s"
| "flush (t # ts) s = flush ts (flush_one t s)"

text \<open>
  \<open>rootRef\<close>, closed over the props \<open>rootMargin\<close> (the threshold is only handed to the
  sensor and never read again, so it is left out). \<open>Inl\<close> is the thrown \<open>Error\<close>: it
  is thrown before any ref is written, so the state of the caller stays as it was.
\<close>

definition rootRef :: "platform \<Rightarrow> string option \<Rightarrow> node option \<Rightarrow> state \<Rightarrow> error + state" where
  "rootRef pf rm nd s =
     (case nd of
        Some n \<Rightarrow>
          if positive_margin pf rm \<and> no_overflow_auto (getComputedStyle pf n)
          then Inl OverflowError
          else
            (let s1 = s\<lparr>observerRef := Some \<lparr>s_root = n, s_rootMargin = rm, targets = []\<rparr>\<rparr>;
                 s2 = flush (tempNodes s1) s1
             in Inr (s2\<lparr>tempNodes := []\<rparr>))
      | None \<Rightarrow>
          Inr (case observerRef s of
                 None \<Rightarrow> s
               | Some ob \<Rightarrow> s\<lparr>observerRef := None, trace := trace s @ [Disconnect]\<rparr>))"

text \<open>The cleanup of the provider's effect.\<close>

definition unmount :: "state \<Rightarrow> state" where
  "unmount s = s\<lparr>tempNodes := []\<rparr>"

section \<open>useIntersectionObserver\<close>

text \<open>
  The hook state of one consumer: the ref \<open>isInitiallyVisible\<close> (\<open>None\<close> is
  \<open>undefined\<close>), the \<open>useState\<close> cell (\<open>None\<close> before the first render) and the
  identity of its setter \<open>setIsVisible\<close>.
\<close>

record consumer =
  isInitiallyVisible :: "bool option"
  isVisible :: "bool option"
  setIsVisible :: cb

definition new_consumer :: "cb \<Rightarrow> consumer" where
  "new_consumer c = \<lparr>isInitiallyVisible = None, isVisible = None, setIsVisible = c\<rparr>"

text \<open>
  One evaluation of the hook body (one render of the consumer): the check and decrement
  on the context's counter, then \<open>useState(!!isInitiallyVisible.current)\<close>, whose
  argument counts on the first render only. A number is truthy when it is not 0.
\<close>

definition render :: "consumer \<Rightarrow> state \<Rightarrow> consumer \<times> state" where
  "render c s =
     (let (c1, s1) =
            (if isInitiallyVisible c = None \<and> initiallyVisibleElements s \<noteq> 0
             then (c\<lparr>isInitiallyVisible := Some True\<rparr>,
                   s\<lparr>initiallyVisibleElements := initiallyVisibleElements s - 1\<rparr>)
             else (c\<lparr>isInitiallyVisible := Some False\<rparr>, s))
      in (case isVisible c1 of
            None \<Rightarrow> (c1\<lparr>isVisible := Some (isInitiallyVisible c1 = Some True)\<rparr>, s1)
          | Some _ \<Rightarrow> (c1, s1)))"

definition observeRef :: "consumer \<Rightarrow> bool \<Rightarrow> node option \<Rightarrow> state \<Rightarrow> state" where
  "observeRef c stp nd s =
     (if isInitiallyVisible c = Some True \<and> stp then s
      else registerObserver nd (setIsVisible c) stp s)"

text \<open>The first render of several consumers, one after the other, as siblings mount.\<close>

fun render_all :: "consumer list \<Rightarrow> state \<Rightarrow> consumer list \<times> state" where
  "render_all [] s = ([], s)"
| "render_all (c # cs) s =
     (let (c', s') = render c s; (cs', s'') = render_all cs s' in (c' # cs', s''))"

section \<open>Runs of the provider\<close>

datatype op =
    Register "node option" cb bool
  | RootRef "node option"
  | Tick "(node \<times> bool) list"
  | Unmount

fun exec :: "platform \<Rightarrow> string option \<Rightarrow> op \<Rightarrow> state \<Rightarrow> error + state" where
  "exec pf rm (Register nd c stp) s = Inr (registerObserver nd c stp s)"
| "exec pf rm (RootRef nd) s = rootRef pf rm nd s"
| "exec pf rm (Tick es) s = Inr (tick es s)"
| "exec pf rm Unmount s = Inr (unmount s)"

fun run :: "platform \<Rightarrow> string option \<Rightarrow> op list \<Rightarrow> state \<Rightarrow> error + state" where
  "run pf rm [] s = Inr s"
| "run pf rm (x # xs) s =
     (case exec pf rm x s of Inl e \<Rightarrow> Inl e | Inr s' \<Rightarrow> run pf rm xs s')"

text \<open>The calls of \<open>c(True)\<close>, \<open>c(False)\<close> made for element \<open>n\<close> in a piece of trace.\<close>

definition invocations :: "node \<Rightarrow> event list \<Rightarrow> event list" where
  "invocations n evs = filter (\<lambda>e. case e of Invoke m _ _ \<Rightarrow> m = n | _ \<Rightarrow> False) evs"

text \<open>A sequence of \<open>registerObserver(node, callback, stop)\<close> calls with present nodes.\<close>

fun register_all :: "(node \<times> cb \<times> bool) list \<Rightarrow> state \<Rightarrow> state" where
  "register_all [] s = s"
| "register_all ((n, c, b) # rs) s = register_all rs (registerObserver (Some n) c b s)"

text \<open>The pending entry that a registration pushes, and the registry entry it becomes.\<close>

definition queued :: "node \<times> cb \<times> bool \<Rightarrow> temp" where
  "queued r = \<lparr>t_node = fst r, t_visibilityCallback = fst (snd r),
     t_stopObservingOnceVisible = snd (snd r)\<rparr>"

definition entry_of :: "temp \<Rightarrow> node \<times> opts" where
  "entry_of t = (t_node t, \<lparr>visibilityCallback = t_visibilityCallback t,
     stopObservingOnceVisible = t_stopObservingOnceVisible t\<rparr>)"

text \<open>
  What holds of the refs in every state the provider reaches: no pending entry while a
  sensor is there, and no key twice in the \<open>Map\<close> or in the sensor's target list.
\<close>

definition keys_distinct :: "state \<Rightarrow> bool" where
  "keys_distinct s = (distinct (map fst (observedNodes s))
     \<and> (case observerRef s of None \<Rightarrow> True | Some ob \<Rightarrow> distinct (targets ob)))"

definition provider_inv :: "state \<Rightarrow> bool" where
  "provider_inv s = ((observerRef s \<noteq> None \<longrightarrow> tempNodes s = []) \<and> keys_distinct s)"

text \<open>How often element \<open>n\<close> is among the targets of the current sensor.\<close>

definition subscriptions :: "state \<Rightarrow> node \<Rightarrow> nat" where
  "subscriptions s n = (case observerRef s of None \<Rightarrow> 0 | Some ob \<Rightarrow> count_list (targets ob) n)"

section \<open>Example inputs\<close>

text \<open>
  The configuration of \<open>IntersectionObserverExample\<close>: \<open>rootMargin="1000px 0px"\<close> on a
  container styled \<open>overflow: auto\<close>, with what \<open>parseFloat\<close> returns on the two pieces.
\<close>

definition demo_platform :: platform where
  "demo_platform =
     \<lparr>parseFloat = (\<lambda>v. if v = ''1000px'' then Num 1000 else if v = ''0px'' then Num 0 else NaN),
      getComputedStyle = (\<lambda>n. \<lparr>overflow = ''auto'', overflowY = ''auto'', overflowX = ''auto''\<rparr>)\<rparr>"

text \<open>The same margin on a root whose overflow is \<open>visible\<close>.\<close>

definition plain_platform :: platform where
  "plain_platform =
     \<lparr>parseFloat = (\<lambda>v. if v = ''1000px'' then Num 1000 else if v = ''0px'' then Num 0 else NaN),
      getComputedStyle =
        (\<lambda>n. \<lparr>overflow = ''visible'', overflowY = ''visible'', overflowX = ''visible''\<rparr>)\<rparr>"

text \<open>A provider with a live sensor, a one-shot target 1 and a continuous target 2.\<close>

definition live2 :: state where
  "live2 =
     \<lparr>observerRef = Some \<lparr>s_root = 0, s_rootMargin = None, targets = [1, 2]\<rparr>,
      observedNodes = [(1, \<lparr>visibilityCallback = 7, stopObservingOnceVisible = True\<rparr>),
                       (2, \<lparr>visibilityCallback = 8, stopObservingOnceVisible = False\<rparr>)],
      tempNodes = [], initiallyVisibleElements = 0, trace = []\<rparr>"

text \<open>Two targets, 2 and 3, that hold the same callback.\<close>

definition live3 :: state where
  "live3 =
     \<lparr>observerRef = Some \<lparr>s_root = 0, s_rootMargin = None, targets = [1, 2, 3]\<rparr>,
      observedNodes = [(1, \<lparr>visibilityCallback = 7, stopObservingOnceVisible = True\<rparr>),
                       (2, \<lparr>visibilityCallback = 8, stopObservingOnceVisible = False\<rparr>),
                       (3, \<lparr>visibilityCallback = 8, stopObservingOnceVisible = False\<rparr>)],
      tempNodes = [], initiallyVisibleElements = 0, trace = []\<rparr>"

section \<open>Basic facts about the sensor calls\<close>

lemma observerRef_opt_unobserve:
  "observerRef (opt_unobserve n s) = map_option (unobserve n) (observerRef s)"
  by (simp add: opt_unobserve_def split: option.splits)

lemma observerRef_opt_observe:
  "observerRef (opt_observe n s) = map_option (observe n) (observerRef s)"
  by (simp add: opt_observe_def split: option.splits)

lemma observedNodes_opt_unobserve [simp]:
  "observedNodes (opt_unobserve n s) = observedNodes s"
  by (simp add: opt_unobserve_def split: option.splits)

lemma observedNodes_opt_observe [simp]:
  "observedNodes (opt_observe n s) = observedNodes s"
  by (simp add: opt_observe_def split: option.splits)

lemma tempNodes_opt_unobserve [simp]:
  "tempNodes (opt_unobserve n s) = tempNodes s"
  by (simp add: opt_unobserve_def split: option.splits)

lemma tempNodes_opt_observe [simp]:
  "tempNodes (opt_observe n s) = tempNodes s"
  by (simp add: opt_observe_def split: option.splits)

lemma counter_opt_unobserve [simp]:
  "initiallyVisibleElements (opt_unobserve n s) = initiallyVisibleElements s"
  by (simp add: opt_unobserve_def split: option.splits)

lemma counter_opt_observe [simp]:
  "initiallyVisibleElements (opt_observe n s) = initiallyVisibleElements s"
  by (simp add: opt_observe_def split: option.splits)

lemma live_opt_unobserve [simp]:
  "(observerRef (opt_unobserve n s) = None) = (observerRef s = None)"
  by (simp add: opt_unobserve_def split: option.splits)

lemma live_opt_observe [simp]:
  "(observerRef (opt_observe n s) = None) = (observerRef s = None)"
  by (simp add: opt_observe_def split: option.splits)

lemma trace_opt_unobserve:
  "trace (opt_unobserve n s) = trace s @ (if observerRef s = None then [] else [Unobserve n])"
  by (simp add: opt_unobserve_def split: option.splits)

lemma trace_opt_observe:
  "trace (opt_observe n s) = trace s @ (if observerRef s = None then [] else [Observe n])"
  by (simp add: opt_observe_def split: option.splits)

lemmas model_defs = tick_entry_def invoke_def retire_def opt_unobserve_def opt_observe_def
  unobserve_def observe_def registerObserver_def

section \<open>The tick callback on handles that are not registered\<close>

lemma tick_append: "tick (xs @ ys) s = tick ys (tick xs s)"
  by (induction xs arbitrary: s) simp_all

lemma tick_entry_skip:
  "map_of (observedNodes s) n = None \<Longrightarrow> tick_entry (n, b) s = s"
  by (simp add: tick_entry_def)

text \<open>
  C6. A pair of a tick whose handle is not in the registry when its turn comes (after the
  pairs \<open>pre\<close> before it were handled) is skipped: the whole state, registry and trace of
  callback calls included, is what it would be without the pair. The tick callback has
  no failing branch.
\<close>

theorem absent_pair_skipped:
  assumes "map_of (observedNodes (tick pre s)) h = None"
  shows "tick (pre @ (h, b) # post) s = tick (pre @ post) s
    \<and> tick (pre @ [(h, b)]) s = tick pre s"
  using assms by (simp add: tick_append tick_entry_skip)

theorem absent_pair_skipped_witness:
  "map_of (observedNodes (tick [(1, True)] live2)) 1 = None
   \<and> tick ([(1, True)] @ (1, True) # [(2, True)]) live2 = tick ([(1, True)] @ [(2, True)]) live2
   \<and> tick ([(1, True)] @ [(1, True)]) live2 = tick [(1, True)] live2"
proof -
  have h: "map_of (observedNodes (tick [(1, True)] live2)) 1 = None"
    by (simp add: live2_def model_defs)
  show ?thesis using h absent_pair_skipped [OF h] by blast
qed

section \<open>Unregistration by callback\<close>

lemma find_callback_None:
  "(find_callback c es = None) = (\<forall>e \<in> set es. visibilityCallback (snd e) \<noteq> c)"
  by (induction c es rule: find_callback.induct) auto

lemma find_callback_first:
  "\<forall>e \<in> set pre. visibilityCallback (snd e) \<noteq> c \<Longrightarrow> visibilityCallback v = c \<Longrightarrow>
   find_callback c (pre @ (n, v) # post) = Some n"
  by (induction pre) auto

lemma delete_middle:
  "distinct (map fst (pre @ (n, v) # post)) \<Longrightarrow> AList.delete n (pre @ (n, v) # post) = pre @ post"
proof -
  assume d: "distinct (map fst (pre @ (n, v) # post))"
  then have "n \<notin> fst ` set pre" and "n \<notin> fst ` set post" by auto
  then have "AList.delete n pre = pre" and "AList.delete n post = post" by simp_all
  then show ?thesis by (simp add: AList.delete_eq)
qed

text \<open>
  C10. \<open>registerObserver(null, c, _)\<close> with a callback that no registry entry holds
  changes nothing: registry, pending queue, sensor and trace are the same state.
\<close>

theorem unregister_unknown_callback_noop:
  assumes "\<forall>e \<in> set (observedNodes s). visibilityCallback (snd e) \<noteq> c"
  shows "registerObserver None c stp s = s"
  using assms by (simp add: registerObserver_def find_callback_None [symmetric])

theorem unregister_unknown_callback_noop_witness:
  "map (\<lambda>e. visibilityCallback (snd e)) (observedNodes live2) = [7, 8]
   \<and> registerObserver None 9 False live2 = live2"
proof -
  have h: "\<forall>e \<in> set (observedNodes live2). visibilityCallback (snd e) \<noteq> 9"
    by (simp add: live2_def)
  have "map (\<lambda>e. visibilityCallback (snd e)) (observedNodes live2) = [7, 8]"
    by (simp add: live2_def)
  then show ?thesis using unregister_unknown_callback_noop [OF h] by simp
qed

text \<open>
  C7. In a registry (a \<open>Map\<close>, so with distinct keys) where \<open>(n, v)\<close> is the first entry
  in iteration order whose callback is \<open>c\<close>, \<open>registerObserver(null, c, _)\<close> removes that
  entry and keeps every other one, later entries with the same callback included, in
  their order; the sensor gets one \<open>unobserve(n)\<close> when it is live, and the pending queue
  is not touched.
\<close>

theorem unregister_removes_first_match:
  assumes "observedNodes s = pre @ (n, v) # post"
    and "visibilityCallback v = c"
    and "\<forall>e \<in> set pre. visibilityCallback (snd e) \<noteq> c"
    and "distinct (map fst (observedNodes s))"
  shows "observedNodes (registerObserver None c stp s) = pre @ post
    \<and> tempNodes (registerObserver None c stp s) = tempNodes s
    \<and> observerRef (registerObserver None c stp s) = map_option (unobserve n) (observerRef s)
    \<and> trace (registerObserver None c stp s) =
        trace s @ (if observerRef s = None then [] else [Unobserve n])"
  using assms
  by (simp add: registerObserver_def find_callback_first delete_middle trace_opt_unobserve
      observerRef_opt_unobserve)

theorem unregister_removes_first_match_witness:
  "observedNodes live3 = [(1, \<lparr>visibilityCallback = 7, stopObservingOnceVisible = True\<rparr>)]
       @ (2, \<lparr>visibilityCallback = 8, stopObservingOnceVisible = False\<rparr>)
       # [(3, \<lparr>visibilityCallback = 8, stopObservingOnceVisible = False\<rparr>)]
   \<and> observedNodes (registerObserver None 8 False live3) =
       [(1, \<lparr>visibilityCallback = 7, stopObservingOnceVisible = True\<rparr>)]
       @ [(3, \<lparr>visibilityCallback = 8, stopObservingOnceVisible = False\<rparr>)]
   \<and> trace (registerObserver None 8 False live3) = [Unobserve 2]"
proof -
  have h1: "observedNodes live3 =
      [(1, \<lparr>visibilityCallback = 7, stopObservingOnceVisible = True\<rparr>)]
       @ (2, \<lparr>visibilityCallback = 8, stopObservingOnceVisible = False\<rparr>)
       # [(3, \<lparr>visibilityCallback = 8, stopObservingOnceVisible = False\<rparr>)]"
    by (simp add: live3_def)
  have h2: "visibilityCallback \<lparr>visibilityCallback = 8, stopObservingOnceVisible = False\<rparr> = 8"
    by simp
  have h3: "\<forall>e \<in> set [(1::nat, \<lparr>visibilityCallback = 7, stopObservingOnceVisible = True\<rparr>)].
      visibilityCallback (snd e) \<noteq> 8"
    by simp
  have h4: "distinct (map fst (observedNodes live3))"
    by (simp add: live3_def)
  have h5: "observerRef live3 \<noteq> None" and h6: "trace live3 = []"
    by (simp_all add: live3_def)
  show ?thesis
    using h1 h5 h6 unregister_removes_first_match [OF h1 h2 h3 h4, of False] by simp
qed

section \<open>One-shot targets\<close>

lemma lookup_tick_entry_other:
  "e \<noteq> (h, True) \<Longrightarrow> map_of (observedNodes (tick_entry e s)) h = map_of (observedNodes s) h"
  by (cases e) (auto simp: tick_entry_def invoke_def retire_def Let_def AList.delete_conv'
      split: option.splits)

lemma lookup_tick_keep:
  "(h, True) \<notin> set es \<Longrightarrow> map_of (observedNodes (tick es s)) h = map_of (observedNodes s) h"
proof (induction es arbitrary: s)
  case Nil
  then show ?case by simp
next
  case (Cons e es)
  then have "e \<noteq> (h, True)" and "(h, True) \<notin> set es" by auto
  with Cons.IH [of "tick_entry e s"] show ?case
    by (simp add: lookup_tick_entry_other)
qed

lemma count_tick_entry_other:
  "e \<noteq> (h, True) \<Longrightarrow>
   count_list (trace (tick_entry e s)) (Invoke h c True) = count_list (trace s) (Invoke h c True)"
  by (cases e) (auto simp: tick_entry_def invoke_def retire_def Let_def trace_opt_unobserve
      split: option.splits)

lemma count_tick_keep:
  "(h, True) \<notin> set es \<Longrightarrow>
   count_list (trace (tick es s)) (Invoke h c True) = count_list (trace s) (Invoke h c True)"
proof (induction es arbitrary: s)
  case Nil
  then show ?case by simp
next
  case (Cons e es)
  then have "e \<noteq> (h, True)" and "(h, True) \<notin> set es" by auto
  with Cons.IH [of "tick_entry e s"] show ?case
    by (simp add: count_tick_entry_other)
qed

lemma absent_tick_entry:
  "map_of (observedNodes s) h = None \<Longrightarrow>
   map_of (observedNodes (tick_entry e s)) h = None
   \<and> invocations h (trace (tick_entry e s)) = invocations h (trace s)"
  by (cases e) (auto simp: tick_entry_def invoke_def retire_def Let_def AList.delete_conv'
      trace_opt_unobserve invocations_def split: option.splits)

lemma absent_tick:
  "map_of (observedNodes s) h = None \<Longrightarrow>
   map_of (observedNodes (tick es s)) h = None
   \<and> invocations h (trace (tick es s)) = invocations h (trace s)"
proof (induction es arbitrary: s)
  case Nil
  then show ?case by simp
next
  case (Cons e es)
  from absent_tick_entry [OF Cons.prems, of e]
  have a: "map_of (observedNodes (tick_entry e s)) h = None"
    and b: "invocations h (trace (tick_entry e s)) = invocations h (trace s)" by simp_all
  from Cons.IH [OF a] b show ?case by simp
qed

lemma count_invocations:
  "count_list evs (Invoke h c b) = count_list (invocations h evs) (Invoke h c b)"
  by (induction evs) (auto simp: invocations_def split: event.splits)

lemma live_tick_entry [simp]: "(observerRef (tick_entry e s) = None) = (observerRef s = None)"
  by (simp add: tick_entry_def invoke_def retire_def Let_def split: option.splits)

lemma live_tick [simp]: "(observerRef (tick es s) = None) = (observerRef s = None)"
  by (induction es arbitrary: s) simp_all

lemma one_shot_entry:
  assumes "map_of (observedNodes s) h = Some v" and "stopObservingOnceVisible v"
  shows "tick_entry (h, True) s = retire h (invoke h v True s)"
    and "map_of (observedNodes (invoke h v True s)) h = Some v"
    and "map_of (observedNodes (tick_entry (h, True) s)) h = None"
    and "trace (tick_entry (h, True) s) =
       trace s @ Invoke h (visibilityCallback v) True # (if observerRef s = None then [] else [Unobserve h])"
  using assms
  by (simp_all add: tick_entry_def invoke_def retire_def AList.delete_conv' trace_opt_unobserve)

text \<open>
  C1. A target \<open>h\<close> registered with \<open>stopObservingOnceVisible = true\<close>, and a tick that
  holds a pair \<open>(h, true)\<close>. At the first such pair the callback is called with \<open>true\<close>
  while \<open>h\<close> is still in the registry, and \<open>unobserve\<close> and the removal act on the state
  after that call (in the trace the \<open>unobserve\<close> follows the call at once). Over the whole
  tick the callback is called with \<open>true\<close> for \<open>h\<close> exactly once, \<open>h\<close> is not in the
  registry afterwards, and a further tick calls nothing for \<open>h\<close>, whatever its pairs.
\<close>

theorem one_shot_retirement:
  assumes reg: "map_of (observedNodes s) h = Some v"
    and stop: "stopObservingOnceVisible v"
    and mem: "(h, True) \<in> set es"
  shows "(\<exists>es1 es2. es = es1 @ (h, True) # es2
        \<and> map_of (observedNodes (invoke h v True (tick es1 s))) h = Some v
        \<and> tick (es1 @ [(h, True)]) s = retire h (invoke h v True (tick es1 s))
        \<and> trace (tick (es1 @ [(h, True)]) s) =
            trace (tick es1 s) @ Invoke h (visibilityCallback v) True
              # (if observerRef s = None then [] else [Unobserve h]))
    \<and> count_list (trace (tick es s)) (Invoke h (visibilityCallback v) True) =
        count_list (trace s) (Invoke h (visibilityCallback v) True) + 1
    \<and> map_of (observedNodes (tick es s)) h = None
    \<and> (\<forall>es'. invocations h (trace (tick es' (tick es s))) = invocations h (trace (tick es s)))"
proof -
  let ?c = "visibilityCallback v"
  from mem obtain es1 es2 where es: "es = es1 @ (h, True) # es2" and first: "(h, True) \<notin> set es1"
    by (auto dest: split_list_first)
  let ?s1 = "tick es1 s"
  let ?s2 = "tick_entry (h, True) ?s1"
  have reg1: "map_of (observedNodes ?s1) h = Some v"
    using reg first by (simp add: lookup_tick_keep)
  note step = one_shot_entry [OF reg1 stop]
  have whole: "tick es s = tick es2 ?s2"
    by (simp add: es tick_append)
  have gone: "map_of (observedNodes ?s2) h = None" by (rule step(3))
  have p1: "tick (es1 @ [(h, True)]) s = retire h (invoke h v True ?s1)"
    by (simp add: tick_append step(1))
  have p2: "trace (tick (es1 @ [(h, True)]) s) =
      trace ?s1 @ Invoke h ?c True # (if observerRef s = None then [] else [Unobserve h])"
    using step(4) by (simp add: tick_append)
  have c1: "count_list (trace ?s1) (Invoke h ?c True) = count_list (trace s) (Invoke h ?c True)"
    using first by (rule count_tick_keep)
  have c2: "count_list (trace ?s2) (Invoke h ?c True) = count_list (trace s) (Invoke h ?c True) + 1"
    using step(4) c1 by simp
  have c3: "count_list (trace (tick es s)) (Invoke h ?c True) = count_list (trace ?s2) (Invoke h ?c True)"
    using absent_tick [OF gone, of es2] whole
    by (metis count_invocations)
  have p3: "map_of (observedNodes (tick es s)) h = None"
    using absent_tick [OF gone, of es2] whole by simp
  have p4: "\<forall>es'. invocations h (trace (tick es' (tick es s))) = invocations h (trace (tick es s))"
    using absent_tick [OF p3] by simp
  from es step(2) p1 p2 c2 c3 p3 p4 show ?thesis by auto
qed

theorem one_shot_retirement_witness:
  "map_of (observedNodes live2) 1 = Some \<lparr>visibilityCallback = 7, stopObservingOnceVisible = True\<rparr>
   \<and> count_list (trace (tick [(2, True), (1, False), (1, True), (1, True)] live2)) (Invoke 1 7 True) = 1
   \<and> map_of (observedNodes (tick [(2, True), (1, False), (1, True), (1, True)] live2)) 1 = None"
proof -
  have h1: "map_of (observedNodes live2) 1 =
      Some \<lparr>visibilityCallback = 7, stopObservingOnceVisible = True\<rparr>"
    by (simp add: live2_def)
  have h2: "stopObservingOnceVisible \<lparr>visibilityCallback = 7, stopObservingOnceVisible = True\<rparr>"
    by simp
  have h3: "(1, True) \<in> set [(2, True), (1, False), (1, True), (1::nat, True)]"
    by simp
  have h4: "trace live2 = []"
    by (simp add: live2_def)
  show ?thesis
    using h1 h4 one_shot_retirement [OF h1 h2 h3] by simp
qed

section \<open>The pending queue and its flush\<close>

lemma register_pending:
  "observerRef s = None \<Longrightarrow>
   registerObserver (Some n) c b s =
     (if map_of (observedNodes s) n \<noteq> None then s
      else s\<lparr>tempNodes := tempNodes s @ [queued (n, c, b)]\<rparr>)"
  by (simp add: registerObserver_def queued_def)

lemma register_all_pending:
  "observerRef s = None \<Longrightarrow>
   register_all regs s =
     s\<lparr>tempNodes := tempNodes s @
        map queued (filter (\<lambda>r. map_of (observedNodes s) (fst r) = None) regs)\<rparr>"
proof (induction regs arbitrary: s)
  case Nil
  then show ?case by simp
next
  case (Cons r regs)
  obtain n c b where r: "r = (n, c, b)" by (cases r) auto
  let ?s1 = "registerObserver (Some n) c b s"
  have s1: "?s1 = (if map_of (observedNodes s) n \<noteq> None then s
      else s\<lparr>tempNodes := tempNodes s @ [queued (n, c, b)]\<rparr>)"
    using Cons.prems by (rule register_pending)
  then have "observerRef ?s1 = None" and "observedNodes ?s1 = observedNodes s"
    using Cons.prems by auto
  with Cons.IH [of ?s1] s1 show ?case
    by (auto simp: r)
qed

lemma tempNodes_flush [simp]: "tempNodes (flush ts s) = tempNodes s"
  by (induction ts arbitrary: s) (simp_all add: flush_one_def)

lemma counter_flush [simp]: "initiallyVisibleElements (flush ts s) = initiallyVisibleElements s"
  by (induction ts arbitrary: s) (simp_all add: flush_one_def)

lemma live_flush [simp]: "(observerRef (flush ts s) = None) = (observerRef s = None)"
  by (induction ts arbitrary: s) (simp_all add: flush_one_def)

lemma trace_flush:
  "trace (flush ts s) =
     trace s @ (if observerRef s = None then [] else map (\<lambda>t. Observe (t_node t)) ts)"
  by (induction ts arbitrary: s) (simp_all add: flush_one_def trace_opt_observe)

lemma update_fresh: "k \<notin> fst ` set al \<Longrightarrow> AList.update k v al = al @ [(k, v)]"
  by (induction al) auto

lemma observedNodes_flush_fresh:
  "distinct (map t_node ts) \<Longrightarrow> t_node ` set ts \<inter> fst ` set (observedNodes s) = {} \<Longrightarrow>
   observedNodes (flush ts s) = observedNodes s @ map entry_of ts"
proof (induction ts arbitrary: s)
  case Nil
  then show ?case by simp
next
  case (Cons t ts)
  have fresh: "t_node t \<notin> fst ` set (observedNodes s)" using Cons.prems by auto
  have one: "observedNodes (flush_one t s) = observedNodes s @ [entry_of t]"
    using fresh by (simp add: flush_one_def update_fresh entry_of_def)
  have "distinct (map t_node ts)" using Cons.prems by simp
  moreover have "t_node ` set ts \<inter> fst ` set (observedNodes (flush_one t s)) = {}"
    using Cons.prems by (auto simp: one entry_of_def)
  ultimately show ?case using Cons.IH [of "flush_one t s"] by (simp add: one)
qed

lemma targets_flush_fresh:
  "observerRef s = Some ob \<Longrightarrow> distinct (map t_node ts) \<Longrightarrow> t_node ` set ts \<inter> set (targets ob) = {} \<Longrightarrow>
   observerRef (flush ts s) = Some (ob\<lparr>targets := targets ob @ map t_node ts\<rparr>)"
proof (induction ts arbitrary: s ob)
  case Nil
  then show ?case by simp
next
  case (Cons t ts)
  let ?ob1 = "ob\<lparr>targets := targets ob @ [t_node t]\<rparr>"
  have one: "observerRef (flush_one t s) = Some ?ob1"
    using Cons.prems by (auto simp: flush_one_def observerRef_opt_observe observe_def)
  have "distinct (map t_node ts)" using Cons.prems by simp
  moreover have "t_node ` set ts \<inter> set (targets ?ob1) = {}"
    using Cons.prems by auto
  ultimately show ?case using Cons.IH [OF one] by simp
qed

lemma rootRef_attach:
  assumes "\<not> (positive_margin pf rm \<and> no_overflow_auto (getComputedStyle pf r))"
  shows "rootRef pf rm (Some r) s =
     Inr ((flush (tempNodes s)
       (s\<lparr>observerRef := Some \<lparr>s_root = r, s_rootMargin = rm, targets = []\<rparr>\<rparr>))\<lparr>tempNodes := []\<rparr>)"
  using assms by (simp add: rootRef_def Let_def)

lemma rootRef_Inr_attach:
  assumes "rootRef pf rm (Some r) s = Inr s'"
  shows "s' = (flush (tempNodes s)
       (s\<lparr>observerRef := Some \<lparr>s_root = r, s_rootMargin = rm, targets = []\<rparr>\<rparr>))\<lparr>tempNodes := []\<rparr>"
  using assms by (simp add: rootRef_def Let_def split: if_splits)

section \<open>What every reachable state satisfies\<close>

lemma inv_init: "provider_inv (init ive)"
  by (simp add: provider_inv_def keys_distinct_def init_def)

lemma keys_opt_observe: "keys_distinct s \<Longrightarrow> keys_distinct (opt_observe n s)"
  by (auto simp: keys_distinct_def opt_observe_def observe_def split: option.splits)

lemma keys_opt_unobserve: "keys_distinct s \<Longrightarrow> keys_distinct (opt_unobserve n s)"
  by (auto simp: keys_distinct_def opt_unobserve_def unobserve_def distinct_removeAll
      split: option.splits)

lemma keys_registry_update:
  "keys_distinct s \<Longrightarrow> keys_distinct (s\<lparr>observedNodes := AList.update n v (observedNodes s)\<rparr>)"
  by (simp add: keys_distinct_def AList.distinct_update)

lemma keys_registry_delete:
  "keys_distinct s \<Longrightarrow> keys_distinct (s\<lparr>observedNodes := AList.delete n (observedNodes s)\<rparr>)"
  by (simp add: keys_distinct_def AList.distinct_delete)

lemma keys_retire: "keys_distinct s \<Longrightarrow> keys_distinct (retire n s)"
  using keys_registry_delete [OF keys_opt_unobserve] by (simp add: retire_def)

lemma keys_flush_one: "keys_distinct s \<Longrightarrow> keys_distinct (flush_one t s)"
  using keys_registry_update [OF keys_opt_observe] by (simp add: flush_one_def)

lemma keys_flush: "keys_distinct s \<Longrightarrow> keys_distinct (flush ts s)"
  by (induction ts arbitrary: s) (simp_all add: keys_flush_one)

lemma keys_registerObserver: "keys_distinct s \<Longrightarrow> keys_distinct (registerObserver nd c b s)"
proof -
  assume k: "keys_distinct s"
  have a: "\<And>n v. keys_distinct ((opt_observe n s)\<lparr>observedNodes := AList.update n v (observedNodes s)\<rparr>)"
    using keys_registry_update [OF keys_opt_observe [OF k]] by simp
  have b: "\<And>n. keys_distinct ((opt_unobserve n s)\<lparr>observedNodes := AList.delete n (observedNodes s)\<rparr>)"
    using keys_registry_delete [OF keys_opt_unobserve [OF k]] by simp
  have c: "\<And>ts. keys_distinct (s\<lparr>tempNodes := ts\<rparr>)"
    using k by (simp add: keys_distinct_def)
  show ?thesis using k a b c
    by (simp add: registerObserver_def split: option.splits)
qed

lemma keys_tick_entry: "keys_distinct s \<Longrightarrow> keys_distinct (tick_entry e s)"
proof -
  assume k: "keys_distinct s"
  have a: "\<And>v b. keys_distinct (invoke (fst e) v b s)"
    using k by (simp add: invoke_def keys_distinct_def)
  show ?thesis using k a keys_retire
    by (auto simp: tick_entry_def Let_def split: option.splits)
qed

lemma keys_tick: "keys_distinct s \<Longrightarrow> keys_distinct (tick es s)"
  by (induction es arbitrary: s) (simp_all add: keys_tick_entry)

lemma live_registerObserver [simp]:
  "(observerRef (registerObserver nd c b s) = None) = (observerRef s = None)"
  by (simp add: registerObserver_def split: option.splits)

lemma tempNodes_register_live:
  "observerRef s \<noteq> None \<Longrightarrow> tempNodes (registerObserver nd c b s) = tempNodes s"
  by (cases "observerRef s") (auto simp: registerObserver_def split: option.splits)

lemma pending_registerObserver:
  assumes "observerRef s \<noteq> None \<longrightarrow> tempNodes s = []"
  shows "observerRef (registerObserver nd c b s) \<noteq> None \<longrightarrow>
    tempNodes (registerObserver nd c b s) = []"
proof (cases "observerRef s = None")
  case True
  then show ?thesis by simp
next
  case False
  with assms show ?thesis by (simp add: tempNodes_register_live)
qed

lemma tempNodes_tick_entry [simp]: "tempNodes (tick_entry e s) = tempNodes s"
  by (simp add: tick_entry_def invoke_def retire_def Let_def split: option.splits)

lemma tempNodes_tick [simp]: "tempNodes (tick es s) = tempNodes s"
  by (induction es arbitrary: s) simp_all

lemma inv_rootRef: "provider_inv s \<Longrightarrow> rootRef pf rm nd s = Inr s' \<Longrightarrow> provider_inv s'"
proof (cases nd)
  case None
  assume "provider_inv s" and "rootRef pf rm nd s = Inr s'"
  with None show ?thesis
    by (auto simp: rootRef_def provider_inv_def keys_distinct_def split: option.splits)
next
  case (Some r)
  assume i: "provider_inv s" and r: "rootRef pf rm nd s = Inr s'"
  let ?s0 = "s\<lparr>observerRef := Some \<lparr>s_root = r, s_rootMargin = rm, targets = []\<rparr>\<rparr>"
  have "keys_distinct ?s0" using i by (simp add: provider_inv_def keys_distinct_def)
  then have "keys_distinct (flush (tempNodes s) ?s0)" by (rule keys_flush)
  then have k: "keys_distinct ((flush (tempNodes s) ?s0)\<lparr>tempNodes := []\<rparr>)"
    by (simp add: keys_distinct_def)
  have s': "s' = (flush (tempNodes s) ?s0)\<lparr>tempNodes := []\<rparr>"
    using r Some by (simp add: rootRef_Inr_attach)
  show ?thesis using k by (simp add: s' provider_inv_def)
qed

lemma inv_exec: "provider_inv s \<Longrightarrow> exec pf rm x s = Inr s' \<Longrightarrow> provider_inv s'"
proof (cases x)
  case (Register nd c b)
  assume "provider_inv s" and "exec pf rm x s = Inr s'"
  then have "s' = registerObserver nd c b s" and "keys_distinct s"
    and p: "observerRef s \<noteq> None \<longrightarrow> tempNodes s = []"
    using Register by (auto simp: provider_inv_def)
  then show ?thesis
    using pending_registerObserver [OF p, of nd c b] keys_registerObserver [of s nd c b]
    by (simp add: provider_inv_def)
next
  case (RootRef nd)
  assume "provider_inv s" and "exec pf rm x s = Inr s'"
  with RootRef show ?thesis by (auto intro: inv_rootRef)
next
  case (Tick es)
  assume "provider_inv s" and "exec pf rm x s = Inr s'"
  then have "s' = tick es s" and "keys_distinct (tick es s)"
    and "observerRef s \<noteq> None \<longrightarrow> tempNodes s = []"
    using Tick keys_tick [of s es] by (auto simp: provider_inv_def)
  then show ?thesis by (simp add: provider_inv_def)
next
  case Unmount
  assume "provider_inv s" and "exec pf rm x s = Inr s'"
  with Unmount show ?thesis
    by (auto simp: provider_inv_def keys_distinct_def unmount_def)
qed

lemma inv_run: "provider_inv s \<Longrightarrow> run pf rm xs s = Inr s' \<Longrightarrow> provider_inv s'"
proof (induction xs arbitrary: s)
  case Nil
  then show ?case by simp
next
  case (Cons x xs)
  then obtain s1 where x: "exec pf rm x s = Inr s1" and rest: "run pf rm xs s1 = Inr s'"
    by (auto split: sum.splits)
  from inv_exec [OF Cons.prems(1) x] have "provider_inv s1" .
  from Cons.IH [OF this rest] show ?case .
qed

section \<open>Attaching the root: the flush of the pending queue\<close>

text \<open>
  C4. Registrations \<open>regs\<close> made while no sensor is there are appended to the pending
  queue in call order (those whose handle the registry already holds are dropped by the
  \<open>has\<close> check). Attaching the root then, when the configuration check does not throw,
  builds the sensor, calls \<open>observe\<close> for every queued entry in queue order and empties
  the queue; with distinct handles that the registry does not hold, the entries are
  appended to the registry, and the handles to the sensor's targets, in that same order.
  The queue is flushed once: attaching again replays nothing. In every state that a run
  of the provider reaches from its initial state, the pending queue is empty when a
  sensor is there.
\<close>

theorem pending_queue_flush:
  assumes none: "observerRef s = None"
    and ok: "\<not> (positive_margin pf rm \<and> no_overflow_auto (getComputedStyle pf r))"
    and q: "q = tempNodes s @ map queued (filter (\<lambda>x. map_of (observedNodes s) (fst x) = None) regs)"
  shows "tempNodes (register_all regs s) = q
    \<and> (\<exists>s'. rootRef pf rm (Some r) (register_all regs s) = Inr s'
        \<and> observerRef s' \<noteq> None
        \<and> tempNodes s' = []
        \<and> trace s' = trace s @ map (\<lambda>t. Observe (t_node t)) q
        \<and> (distinct (map t_node q) \<and> t_node ` set q \<inter> fst ` set (observedNodes s) = {} \<longrightarrow>
             observedNodes s' = observedNodes s @ map entry_of q
             \<and> map_option targets (observerRef s') = Some (map t_node q))
        \<and> (\<forall>pf' rm' r' s''. rootRef pf' rm' (Some r') s' = Inr s'' \<longrightarrow>
             trace s'' = trace s' \<and> observedNodes s'' = observedNodes s'))
    \<and> (\<forall>xs t. run pf rm xs (init ive) = Inr t \<longrightarrow> observerRef t \<noteq> None \<longrightarrow> tempNodes t = [])"
proof -
  let ?s1 = "register_all regs s"
  have s1: "?s1 = s\<lparr>tempNodes := q\<rparr>"
    using register_all_pending [OF none, of regs] q by simp
  let ?s0 = "?s1\<lparr>observerRef := Some \<lparr>s_root = r, s_rootMargin = rm, targets = []\<rparr>\<rparr>"
  let ?s' = "(flush (tempNodes ?s1) ?s0)\<lparr>tempNodes := []\<rparr>"
  have a: "rootRef pf rm (Some r) ?s1 = Inr ?s'"
    using ok by (rule rootRef_attach)
  have t1: "tempNodes ?s1 = q" by (simp add: s1)
  have b: "observerRef ?s' \<noteq> None" by simp
  have c: "tempNodes ?s' = []" by simp
  have d: "trace ?s' = trace s @ map (\<lambda>t. Observe (t_node t)) q"
    by (simp add: trace_flush t1) (simp add: s1)
  have e: "observedNodes ?s' = observedNodes s @ map entry_of q
      \<and> map_option targets (observerRef ?s') = Some (map t_node q)"
    if dq: "distinct (map t_node q)" and fr: "t_node ` set q \<inter> fst ` set (observedNodes s) = {}"
  proof -
    have "observedNodes (flush q ?s0) = observedNodes ?s0 @ map entry_of q"
      using dq fr by (intro observedNodes_flush_fresh) (simp_all add: s1)
    moreover have "observerRef (flush q ?s0) =
        Some (\<lparr>s_root = r, s_rootMargin = rm, targets = []\<rparr>\<lparr>targets := [] @ map t_node q\<rparr>)"
      using dq targets_flush_fresh [of ?s0 "\<lparr>s_root = r, s_rootMargin = rm, targets = []\<rparr>" q]
      by simp
    ultimately show ?thesis by (simp add: t1) (simp add: s1)
  qed
  have f: "trace s'' = trace ?s' \<and> observedNodes s'' = observedNodes ?s'"
    if "rootRef pf' rm' (Some r') ?s' = Inr s''" for pf' rm' r' s''
    using rootRef_Inr_attach [OF that] by simp
  have g: "tempNodes t = []" if "run pf rm xs (init ive) = Inr t" and "observerRef t \<noteq> None" for xs t
    using inv_run [OF inv_init that(1)] that(2) by (simp add: provider_inv_def)
  show ?thesis
    using t1 a b c d e f g by (intro conjI exI [of _ ?s']) blast+
qed

theorem pending_queue_flush_witness:
  "\<exists>s'. rootRef demo_platform (Some ''1000px 0px'') (Some 0)
          (register_all [(1, 7, True), (2, 8, False), (3, 9, True)] (init None)) = Inr s'
     \<and> tempNodes s' = []
     \<and> trace s' = [Observe 1, Observe 2, Observe 3]
     \<and> map fst (observedNodes s') = [1, 2, 3]"
proof -
  let ?regs = "[(1, 7, True), (2, 8, False), (3::nat, 9::nat, True)]"
  let ?q = "[queued (1, 7, True), queued (2, 8, False), queued (3, 9, True)]"
  have none: "observerRef (init None) = None"
    by (simp add: init_def)
  have ok: "\<not> (positive_margin demo_platform (Some ''1000px 0px'')
      \<and> no_overflow_auto (getComputedStyle demo_platform 0))"
    by (simp add: no_overflow_auto_def demo_platform_def)
  have q: "?q = tempNodes (init None)
      @ map queued (filter (\<lambda>x. map_of (observedNodes (init None)) (fst x) = None) ?regs)"
    by (simp add: init_def)
  have dq: "distinct (map t_node ?q) \<and> t_node ` set ?q \<inter> fst ` set (observedNodes (init None)) = {}"
    by (simp add: queued_def init_def)
  have tr: "trace (init None) @ map (\<lambda>t. Observe (t_node t)) ?q = [Observe 1, Observe 2, Observe 3]"
    by (simp add: queued_def init_def)
  have reg: "map fst (observedNodes (init None) @ map entry_of ?q) = [1, 2, 3]"
    by (simp add: queued_def entry_of_def init_def)
  from pending_queue_flush [OF none ok q, of None] dq tr reg show ?thesis
    by metis
qed

section \<open>Registering a handle twice\<close>

lemma count_distinct: "distinct xs \<Longrightarrow> x \<in> set xs \<Longrightarrow> count_list xs x = 1"
  by (induction xs) auto

lemma flush_append: "flush (xs @ ys) s = flush ys (flush xs s)"
  by (induction xs arbitrary: s) simp_all

lemma keys_flush_set:
  "fst ` set (observedNodes (flush ts s)) = fst ` set (observedNodes s) \<union> t_node ` set ts"
  by (induction ts arbitrary: s) (auto simp: flush_one_def AList.dom_update)

lemma targets_observe_set: "set (targets (observe n ob)) = insert n (set (targets ob))"
  by (auto simp: observe_def)

lemma targets_flush_set:
  "observerRef s = Some ob \<Longrightarrow>
   \<exists>ob'. observerRef (flush ts s) = Some ob' \<and> set (targets ob') = set (targets ob) \<union> t_node ` set ts"
proof (induction ts arbitrary: s ob)
  case Nil
  then show ?case by simp
next
  case (Cons t ts)
  have one: "observerRef (flush_one t s) = Some (observe (t_node t) ob)"
    using Cons.prems by (simp add: flush_one_def observerRef_opt_observe)
  from Cons.IH [OF one] show ?case
    by (auto simp: targets_observe_set)
qed

lemma lookup_flush_last:
  "map_of (observedNodes (flush (ts @ [t]) s)) (t_node t) = Some (snd (entry_of t))"
  by (simp add: flush_append flush_one_def entry_of_def AList.update_conv')

lemma register_live_fresh:
  assumes "observerRef s = Some ob" and "map_of (observedNodes s) n = None"
  shows "registerObserver (Some n) c b s =
     s\<lparr>observerRef := Some (observe n ob), trace := trace s @ [Observe n],
       observedNodes := observedNodes s @ [(n, \<lparr>visibilityCallback = c, stopObservingOnceVisible = b\<rparr>)]\<rparr>"
proof -
  have "n \<notin> fst ` set (observedNodes s)"
    using assms(2) by (simp add: map_of_eq_None_iff)
  then show ?thesis using assms
    by (simp add: registerObserver_def opt_observe_def update_fresh)
qed

lemma register_registered:
  "map_of (observedNodes s) n \<noteq> None \<Longrightarrow> registerObserver (Some n) c b s = s"
  by (simp add: registerObserver_def)

text \<open>
  C2, amended. A handle \<open>n\<close> that the registry does not hold is registered twice. With a
  live sensor the second call is a no-op: the registry holds one entry for \<open>n\<close> (that of
  the first call), the sensor holds \<open>n\<close> once among its targets and got one \<open>observe\<close>
  call. Without a sensor each call pushes one entry on the pending queue, so the queue
  holds two entries for \<open>n\<close> and the registry none; once the root is attached the flush
  leaves one registry entry for \<open>n\<close>, with the settings of the later call, and \<open>n\<close> once
  among the targets of the sensor.
\<close>

theorem register_twice:
  assumes fresh: "map_of (observedNodes s) n = None"
    and keys: "keys_distinct s"
    and s1: "s1 = registerObserver (Some n) c b s"
    and s2: "s2 = registerObserver (Some n) c' b' s1"
  shows "(observerRef s \<noteq> None \<longrightarrow>
        s2 = s1
        \<and> observedNodes s1 = observedNodes s @ [(n, \<lparr>visibilityCallback = c, stopObservingOnceVisible = b\<rparr>)]
        \<and> count_list (map fst (observedNodes s1)) n = 1
        \<and> subscriptions s1 n = 1
        \<and> trace s1 = trace s @ [Observe n]
        \<and> tempNodes s1 = tempNodes s)
    \<and> (observerRef s = None \<longrightarrow>
        tempNodes s2 = tempNodes s @ [queued (n, c, b), queued (n, c', b')]
        \<and> observedNodes s2 = observedNodes s
        \<and> (\<forall>pf rm r s3. rootRef pf rm (Some r) s2 = Inr s3 \<longrightarrow>
              count_list (map fst (observedNodes s3)) n = 1
              \<and> map_of (observedNodes s3) n =
                  Some \<lparr>visibilityCallback = c', stopObservingOnceVisible = b'\<rparr>
              \<and> subscriptions s3 n = 1))"
proof (intro conjI impI)
  assume live: "observerRef s \<noteq> None"
  then obtain ob where ob: "observerRef s = Some ob" by auto
  note eq = register_live_fresh [OF ob fresh, of c b]
  have reg: "observedNodes s1 = observedNodes s @ [(n, \<lparr>visibilityCallback = c, stopObservingOnceVisible = b\<rparr>)]"
    by (simp add: s1 eq)
  show "observedNodes s1 = observedNodes s @ [(n, \<lparr>visibilityCallback = c, stopObservingOnceVisible = b\<rparr>)]"
    by (rule reg)
  have "map_of (observedNodes s1) n \<noteq> None" by (simp add: reg)
  then show "s2 = s1" by (simp add: s2 register_registered)
  have "n \<notin> fst ` set (observedNodes s)"
    using fresh by (simp add: map_of_eq_None_iff)
  then show "count_list (map fst (observedNodes s1)) n = 1" by (simp add: reg)
  have "distinct (targets ob)" using keys ob by (simp add: keys_distinct_def)
  then have "count_list (targets (observe n ob)) n = 1"
    by (intro count_distinct) (simp_all add: observe_def)
  then show "subscriptions s1 n = 1" by (simp add: s1 eq subscriptions_def)
  show "trace s1 = trace s @ [Observe n]" by (simp add: s1 eq)
  show "tempNodes s1 = tempNodes s" by (simp add: s1 eq)
next
  assume none: "observerRef s = None"
  have e1: "s1 = s\<lparr>tempNodes := tempNodes s @ [queued (n, c, b)]\<rparr>"
    using fresh by (simp add: s1 register_pending [OF none])
  then have none1: "observerRef s1 = None" and fresh1: "map_of (observedNodes s1) n = None"
    using none fresh by simp_all
  have e2: "s2 = s\<lparr>tempNodes := tempNodes s @ [queued (n, c, b), queued (n, c', b')]\<rparr>"
    using fresh1 by (simp add: s2 register_pending [OF none1]) (simp add: e1)
  show "tempNodes s2 = tempNodes s @ [queued (n, c, b), queued (n, c', b')]" by (simp add: e2)
  show "observedNodes s2 = observedNodes s" by (simp add: e2)
  show "\<forall>pf rm r s3. rootRef pf rm (Some r) s2 = Inr s3 \<longrightarrow>
      count_list (map fst (observedNodes s3)) n = 1
      \<and> map_of (observedNodes s3) n = Some \<lparr>visibilityCallback = c', stopObservingOnceVisible = b'\<rparr>
      \<and> subscriptions s3 n = 1"
  proof (intro allI impI)
    fix pf rm r s3
    assume att: "rootRef pf rm (Some r) s2 = Inr s3"
    let ?s0 = "s2\<lparr>observerRef := Some \<lparr>s_root = r, s_rootMargin = rm, targets = []\<rparr>\<rparr>"
    let ?q = "tempNodes s @ [queued (n, c, b), queued (n, c', b')]"
    have s3: "s3 = (flush ?q ?s0)\<lparr>tempNodes := []\<rparr>"
      using rootRef_Inr_attach [OF att] by (simp add: e2)
    have k0: "keys_distinct ?s0" using keys by (simp add: keys_distinct_def e2)
    have k3: "keys_distinct (flush ?q ?s0)" using k0 by (rule keys_flush)
    have "n \<in> fst ` set (observedNodes (flush ?q ?s0))"
      by (simp add: keys_flush_set queued_def)
    moreover have "distinct (map fst (observedNodes (flush ?q ?s0)))"
      using k3 by (simp add: keys_distinct_def)
    ultimately have a: "count_list (map fst (observedNodes s3)) n = 1"
      by (simp add: s3 count_distinct)
    have "map_of (observedNodes (flush ((tempNodes s @ [queued (n, c, b)]) @ [queued (n, c', b')]) ?s0))
        (t_node (queued (n, c', b'))) = Some (snd (entry_of (queued (n, c', b'))))"
      by (rule lookup_flush_last)
    then have b: "map_of (observedNodes s3) n =
        Some \<lparr>visibilityCallback = c', stopObservingOnceVisible = b'\<rparr>"
      by (simp add: s3 queued_def entry_of_def)
    obtain ob' where ob': "observerRef (flush ?q ?s0) = Some ob'"
      and tg: "set (targets ob') = set (targets \<lparr>s_root = r, s_rootMargin = rm, targets = []\<rparr>) \<union> t_node ` set ?q"
      using targets_flush_set [of ?s0 "\<lparr>s_root = r, s_rootMargin = rm, targets = []\<rparr>" ?q] by auto
    have "distinct (targets ob')" using k3 ob' by (simp add: keys_distinct_def)
    moreover have "n \<in> set (targets ob')" by (simp add: tg queued_def)
    ultimately have c: "subscriptions s3 n = 1"
      by (simp add: s3 subscriptions_def ob' count_distinct)
    from a b c show "count_list (map fst (observedNodes s3)) n = 1
      \<and> map_of (observedNodes s3) n = Some \<lparr>visibilityCallback = c', stopObservingOnceVisible = b'\<rparr>
      \<and> subscriptions s3 n = 1" by simp
  qed
qed

theorem register_twice_witness:
  "tempNodes (registerObserver (Some 1) 8 True (registerObserver (Some 1) 7 False (init None))) =
     [queued (1, 7, False), queued (1, 8, True)]
   \<and> registerObserver (Some 5) 8 True (registerObserver (Some 5) 7 False live2) =
       registerObserver (Some 5) 7 False live2
   \<and> subscriptions (registerObserver (Some 5) 7 False live2) 5 = 1"
proof -
  have f1: "map_of (observedNodes (init None)) 1 = None" and k1: "keys_distinct (init None)"
    and n1: "observerRef (init None) = None" and t1: "tempNodes (init None) = []"
    by (simp_all add: init_def keys_distinct_def)
  have f2: "map_of (observedNodes live2) 5 = None" and k2: "keys_distinct live2"
    and n2: "observerRef live2 \<noteq> None"
    by (simp_all add: live2_def keys_distinct_def)
  from register_twice [OF f1 k1 refl refl, of 8 True 7 False] n1 t1
  have a: "tempNodes (registerObserver (Some 1) 8 True (registerObserver (Some 1) 7 False (init None))) =
     [queued (1, 7, False), queued (1, 8, True)]"
    by simp
  from register_twice [OF f2 k2 refl refl, of 8 True 7 False] n2
  have b: "registerObserver (Some 5) 8 True (registerObserver (Some 5) 7 False live2) =
       registerObserver (Some 5) 7 False live2
     \<and> subscriptions (registerObserver (Some 5) 7 False live2) 5 = 1"
    by simp
  from a b show ?thesis by simp
qed

text \<open>
  C2 as stated fails without a sensor: the second registration of handle 1 is not a
  no-op, and the pending queue holds two entries for it.
\<close>

theorem duplicate_pending_counterexample:
  "map t_node (tempNodes (registerObserver (Some 1) 7 False
      (registerObserver (Some 1) 7 False (init None)))) = [1, 1]
   \<and> registerObserver (Some 1) 7 False (registerObserver (Some 1) 7 False (init None))
       \<noteq> registerObserver (Some 1) 7 False (init None)"
  by (simp add: registerObserver_def init_def)

section \<open>The bootstrap counter\<close>

lemma render_fresh:
  assumes "isInitiallyVisible c = None"
  shows "render c s =
     (if initiallyVisibleElements s \<noteq> 0
      then (c\<lparr>isInitiallyVisible := Some True,
              isVisible := Some (case isVisible c of None \<Rightarrow> True | Some v \<Rightarrow> v)\<rparr>,
            s\<lparr>initiallyVisibleElements := initiallyVisibleElements s - 1\<rparr>)
      else (c\<lparr>isInitiallyVisible := Some False,
              isVisible := Some (case isVisible c of None \<Rightarrow> False | Some v \<Rightarrow> v)\<rparr>, s))"
  using assms by (cases c) (auto simp: render_def split: option.splits)

lemma render_again:
  assumes "isInitiallyVisible c \<noteq> None"
  shows "isInitiallyVisible (fst (render c s)) = Some False \<and> snd (render c s) = s"
  using assms by (auto simp: render_def split: option.splits)

text \<open>
  Any number of consumers mounting on a counter \<open>k\<close>: the first \<open>k\<close> get true, the rest
  false, and the counter ends at 0 or at what is left.
\<close>

lemma render_all_fresh:
  assumes "\<forall>c \<in> set cs. isInitiallyVisible c = None" and "0 \<le> initiallyVisibleElements s"
  shows "map isInitiallyVisible (fst (render_all cs s)) =
       replicate (min (length cs) (nat (initiallyVisibleElements s))) (Some True)
       @ replicate (length cs - nat (initiallyVisibleElements s)) (Some False)
    \<and> initiallyVisibleElements (snd (render_all cs s)) =
       max 0 (initiallyVisibleElements s - int (length cs))"
  using assms
proof (induction cs arbitrary: s)
  case Nil
  then show ?case by simp
next
  case (Cons c cs)
  have fr: "isInitiallyVisible c = None" and rest: "\<forall>c \<in> set cs. isInitiallyVisible c = None"
    using Cons.prems by simp_all
  show ?case
  proof (cases "initiallyVisibleElements s = 0")
    case True
    then have r: "render c s = (c\<lparr>isInitiallyVisible := Some False,
              isVisible := Some (case isVisible c of None \<Rightarrow> False | Some v \<Rightarrow> v)\<rparr>, s)"
      by (simp add: render_fresh [OF fr])
    from Cons.IH [OF rest Cons.prems(2)] True show ?thesis
      by (simp add: r case_prod_beta)
  next
    case False
    let ?s1 = "s\<lparr>initiallyVisibleElements := initiallyVisibleElements s - 1\<rparr>"
    have r: "render c s = (c\<lparr>isInitiallyVisible := Some True,
              isVisible := Some (case isVisible c of None \<Rightarrow> True | Some v \<Rightarrow> v)\<rparr>, ?s1)"
      using False by (simp add: render_fresh [OF fr])
    have pos: "0 < initiallyVisibleElements s" using False Cons.prems(2) by simp
    then have nn: "0 \<le> initiallyVisibleElements ?s1" by simp
    have k: "nat (initiallyVisibleElements s) = Suc (nat (initiallyVisibleElements s - 1))"
      using pos by simp
    from Cons.IH [OF rest nn] show ?thesis
      by (simp add: r k case_prod_beta)
  qed
qed

lemma observeRef_false_claim:
  "isInitiallyVisible c = Some False \<Longrightarrow>
   observeRef c stp nd s = registerObserver nd (setIsVisible c) stp s"
  by (simp add: observeRef_def)

text \<open>
  C8. The first evaluation of the hook by a consumer, with a counter that is not
  negative: the claim is true exactly when the counter is above 0, and then the counter
  goes down by one; at 0 the claim is false and the counter stays. With
  \<open>initiallyVisibleElements = 2\<close> three consumers get true, true, false. A consumer whose
  claim is false passes its ref on to \<open>registerObserver\<close> also with
  \<open>stopObservingOnceVisible = true\<close>: with a live sensor and a new node, the node is
  observed and enters the registry.
\<close>

theorem bootstrap_claim:
  assumes fresh: "isInitiallyVisible c = None"
    and nonneg: "0 \<le> initiallyVisibleElements s"
    and r: "render c s = (c', s')"
  shows "(isInitiallyVisible c' = Some True \<longleftrightarrow> 0 < initiallyVisibleElements s)
    \<and> (isInitiallyVisible c' = Some False \<longleftrightarrow> initiallyVisibleElements s = 0)
    \<and> initiallyVisibleElements s' =
        (if 0 < initiallyVisibleElements s then initiallyVisibleElements s - 1
         else initiallyVisibleElements s)
    \<and> 0 \<le> initiallyVisibleElements s'
    \<and> map isInitiallyVisible
          (fst (render_all [new_consumer 1, new_consumer 2, new_consumer 3] (init (Some 2)))) =
        [Some True, Some True, Some False]
    \<and> (isInitiallyVisible c' = Some False \<longrightarrow>
         observeRef c' True nd t = registerObserver nd (setIsVisible c') True t
         \<and> (\<forall>n. nd = Some n \<and> observerRef t \<noteq> None \<and> map_of (observedNodes t) n = None \<longrightarrow>
               trace (observeRef c' True nd t) = trace t @ [Observe n]
               \<and> map_of (observedNodes (observeRef c' True nd t)) n =
                   Some \<lparr>visibilityCallback = setIsVisible c', stopObservingOnceVisible = True\<rparr>))"
proof -
  have eq: "(c', s') =
     (if initiallyVisibleElements s \<noteq> 0
      then (c\<lparr>isInitiallyVisible := Some True,
              isVisible := Some (case isVisible c of None \<Rightarrow> True | Some v \<Rightarrow> v)\<rparr>,
            s\<lparr>initiallyVisibleElements := initiallyVisibleElements s - 1\<rparr>)
      else (c\<lparr>isInitiallyVisible := Some False,
              isVisible := Some (case isVisible c of None \<Rightarrow> False | Some v \<Rightarrow> v)\<rparr>, s))"
    using render_fresh [OF fresh, of s] r by simp
  have a: "isInitiallyVisible c' = Some True \<longleftrightarrow> 0 < initiallyVisibleElements s"
    using eq nonneg by (auto split: if_splits)
  have b: "isInitiallyVisible c' = Some False \<longleftrightarrow> initiallyVisibleElements s = 0"
    using eq by (auto split: if_splits)
  have c: "initiallyVisibleElements s' =
        (if 0 < initiallyVisibleElements s then initiallyVisibleElements s - 1
         else initiallyVisibleElements s)"
    using eq nonneg by (auto split: if_splits)
  have d: "0 \<le> initiallyVisibleElements s'"
    using c nonneg by simp
  have e: "map isInitiallyVisible
          (fst (render_all [new_consumer 1, new_consumer 2, new_consumer 3] (init (Some 2)))) =
        [Some True, Some True, Some False]"
    by (simp add: render_def new_consumer_def init_def or_zero_def)
  have f: "observeRef c' True nd t = registerObserver nd (setIsVisible c') True t
      \<and> (\<forall>n. nd = Some n \<and> observerRef t \<noteq> None \<and> map_of (observedNodes t) n = None \<longrightarrow>
            trace (observeRef c' True nd t) = trace t @ [Observe n]
            \<and> map_of (observedNodes (observeRef c' True nd t)) n =
                Some \<lparr>visibilityCallback = setIsVisible c', stopObservingOnceVisible = True\<rparr>)"
    if "isInitiallyVisible c' = Some False"
  proof -
    have o: "observeRef c' True nd t = registerObserver nd (setIsVisible c') True t"
      using that by (rule observeRef_false_claim)
    have "trace (registerObserver (Some n) (setIsVisible c') True t) = trace t @ [Observe n]
        \<and> map_of (observedNodes (registerObserver (Some n) (setIsVisible c') True t)) n =
            Some \<lparr>visibilityCallback = setIsVisible c', stopObservingOnceVisible = True\<rparr>"
      if "observerRef t \<noteq> None" and "map_of (observedNodes t) n = None" for n
    proof -
      from that(1) obtain ob where "observerRef t = Some ob" by auto
      from register_live_fresh [OF this that(2)] that(2) show ?thesis
        by (simp add: map_add_def)
    qed
    with o show ?thesis by auto
  qed
  from a b c d e f show ?thesis by blast
qed

theorem bootstrap_claim_witness:
  "isInitiallyVisible (fst (render (new_consumer 7) (init (Some 2)))) = Some True
   \<and> initiallyVisibleElements (snd (render (new_consumer 7) (init (Some 2)))) = 1
   \<and> isInitiallyVisible (fst (render (new_consumer 7) (init None))) = Some False
   \<and> initiallyVisibleElements (snd (render (new_consumer 7) (init None))) = 0
   \<and> trace (observeRef (fst (render (new_consumer 7) (init None))) True (Some 5) live2) = [Observe 5]"
proof -
  have f: "isInitiallyVisible (new_consumer 7) = None"
    by (simp add: new_consumer_def)
  have n2: "0 \<le> initiallyVisibleElements (init (Some 2))" and v2: "initiallyVisibleElements (init (Some 2)) = 2"
    by (simp_all add: init_def or_zero_def)
  have n0: "0 \<le> initiallyVisibleElements (init None)" and v0: "initiallyVisibleElements (init None) = 0"
    by (simp_all add: init_def or_zero_def)
  have l: "observerRef live2 \<noteq> None" "map_of (observedNodes live2) 5 = None" "trace live2 = []"
    by (simp_all add: live2_def)
  note t2 = bootstrap_claim [OF f n2 prod.collapse [symmetric], of None live2]
  note t0 = bootstrap_claim [OF f n0 prod.collapse [symmetric], of "Some 5" live2]
  have a1: "isInitiallyVisible (fst (render (new_consumer 7) (init (Some 2)))) = Some True"
    using t2 v2 by simp
  have "initiallyVisibleElements (snd (render (new_consumer 7) (init (Some 2)))) =
      (if 0 < initiallyVisibleElements (init (Some 2)) then initiallyVisibleElements (init (Some 2)) - 1
       else initiallyVisibleElements (init (Some 2)))"
    using t2 by blast
  then have a2: "initiallyVisibleElements (snd (render (new_consumer 7) (init (Some 2)))) = 1"
    by (simp add: v2)
  have b1: "isInitiallyVisible (fst (render (new_consumer 7) (init None))) = Some False"
    using t0 v0 by blast
  have "initiallyVisibleElements (snd (render (new_consumer 7) (init None))) =
      (if 0 < initiallyVisibleElements (init None) then initiallyVisibleElements (init None) - 1
       else initiallyVisibleElements (init None))"
    using t0 by blast
  then have b2: "initiallyVisibleElements (snd (render (new_consumer 7) (init None))) = 0"
    by (simp add: v0)
  have "trace (observeRef (fst (render (new_consumer 7) (init None))) True (Some 5) live2) =
      trace live2 @ [Observe 5]"
    using t0 b1 l(1,2) by blast
  then have b3: "trace (observeRef (fst (render (new_consumer 7) (init None))) True (Some 5) live2) =
      [Observe 5]"
    by (simp add: l(3))
  from a1 a2 b1 b2 b3 show ?thesis by blast
qed

text \<open>
  C3. The check is not idempotent per consumer: the \<open>else\<close> branch also runs when the ref
  is already set, so the second render of a consumer that claimed \<open>true\<close> writes \<open>false\<close>
  into \<open>isInitiallyVisible.current\<close>. The counter is not decremented a second time.
\<close>

theorem rerender_resets_claim:
  "isInitiallyVisible (fst (render (new_consumer 7) (init (Some 2)))) = Some True
   \<and> initiallyVisibleElements (snd (render (new_consumer 7) (init (Some 2)))) = 1
   \<and> isInitiallyVisible (fst (render (fst (render (new_consumer 7) (init (Some 2))))
         (snd (render (new_consumer 7) (init (Some 2)))))) = Some False
   \<and> initiallyVisibleElements (snd (render (fst (render (new_consumer 7) (init (Some 2))))
         (snd (render (new_consumer 7) (init (Some 2)))))) = 1"
  by (simp add: render_def new_consumer_def init_def or_zero_def)

section \<open>Unregistration and later ticks\<close>

text \<open>
  For a target in the registry, found by its callback, the null-handle call removes it
  and no later tick calls anything for its handle.
\<close>

lemma unregister_registered_stops_delivery:
  assumes "find_callback c (observedNodes s) = Some h"
  shows "map_of (observedNodes (registerObserver None c b s)) h = None
    \<and> invocations h (trace (tick es (registerObserver None c b s))) = invocations h (trace s)"
proof -
  let ?s1 = "registerObserver None c b s"
  have gone: "map_of (observedNodes ?s1) h = None"
    using assms by (simp add: registerObserver_def AList.delete_conv')
  have "invocations h (trace ?s1) = invocations h (trace s)"
    using assms by (simp add: registerObserver_def trace_opt_unobserve invocations_def)
  with absent_tick [OF gone, of es] gone show ?thesis by simp
qed

text \<open>
  C5. A target that is still in the pending queue is not found by the null-handle call,
  which looks at \<open>observedNodes\<close> only: element 1 is registered before the root is
  attached and unregistered at once; attaching the root still observes it, and the next
  tick calls its callback.
\<close>

theorem pending_unregister_still_delivers:
  "run demo_platform None
     [Register (Some 1) 7 False, Register None 7 False, RootRef (Some 0), Tick [(1, True)]]
     (init None) =
   Inr \<lparr>observerRef = Some \<lparr>s_root = 0, s_rootMargin = None, targets = [1]\<rparr>,
        observedNodes = [(1, \<lparr>visibilityCallback = 7, stopObservingOnceVisible = False\<rparr>)],
        tempNodes = [], initiallyVisibleElements = 0,
        trace = [Observe 1, Invoke 1 7 True]\<rparr>"
  by (simp add: init_def or_zero_def rootRef_def positive_margin_def flush_one_def model_defs)

section \<open>The configuration check of rootRef\<close>

lemma split_sp_no_space: "p \<in> set (split_sp m) \<Longrightarrow> CHR '' '' \<notin> set p"
  by (induction m arbitrary: p) (auto split: if_splits list.splits)

lemma split_sp_length: "length (split_sp m) = Suc (count_list m (CHR '' ''))"
  by (induction m) (auto split: list.splits)

lemma positive_margin_iff:
  "positive_margin pf rm \<longleftrightarrow>
   (\<exists>m. rm = Some m \<and> m \<noteq> [] \<and> (\<exists>v \<in> set (split_sp m). gt_zero (parseFloat pf v)))"
  by (cases rm) (auto simp: positive_margin_def list_ex_iff)

lemma sensor_flush:
  "observerRef s = Some ob \<Longrightarrow>
   \<exists>ob'. observerRef (flush ts s) = Some ob' \<and> s_root ob' = s_root ob
     \<and> s_rootMargin ob' = s_rootMargin ob"
proof (induction ts arbitrary: s ob)
  case Nil
  then show ?case by simp
next
  case (Cons t ts)
  have one: "observerRef (flush_one t s) = Some (observe (t_node t) ob)"
    using Cons.prems by (simp add: flush_one_def observerRef_opt_observe)
  from Cons.IH [OF one] show ?case
    by (auto simp: observe_def)
qed

text \<open>
  C9. Attaching a root. When some piece of \<open>rootMargin\<close> between spaces parses to a
  number above 0 and none of the root's computed \<open>overflow\<close>, \<open>overflowY\<close>, \<open>overflowX\<close>
  is \<open>auto\<close>, \<open>rootRef\<close> throws, before any ref is written, and a run stops there with
  the error. Otherwise \<open>rootRef\<close> returns and a sensor bound to this root and margin is
  in \<open>observerRef\<close>.
\<close>

theorem overflow_check:
  "(positive_margin pf rm \<and> no_overflow_auto (getComputedStyle pf r) \<longrightarrow>
      rootRef pf rm (Some r) s = Inl OverflowError
      \<and> run pf rm (RootRef (Some r) # xs) s = Inl OverflowError)
   \<and> (\<not> positive_margin pf rm \<or> \<not> no_overflow_auto (getComputedStyle pf r) \<longrightarrow>
      (\<exists>s' ob. rootRef pf rm (Some r) s = Inr s' \<and> observerRef s' = Some ob
         \<and> s_root ob = r \<and> s_rootMargin ob = rm))"
proof (intro conjI impI)
  assume bad: "positive_margin pf rm \<and> no_overflow_auto (getComputedStyle pf r)"
  then show "rootRef pf rm (Some r) s = Inl OverflowError"
    by (simp add: rootRef_def)
  then show "run pf rm (RootRef (Some r) # xs) s = Inl OverflowError"
    by simp
next
  assume "\<not> positive_margin pf rm \<or> \<not> no_overflow_auto (getComputedStyle pf r)"
  then have ok: "\<not> (positive_margin pf rm \<and> no_overflow_auto (getComputedStyle pf r))"
    by blast
  let ?s0 = "s\<lparr>observerRef := Some \<lparr>s_root = r, s_rootMargin = rm, targets = []\<rparr>\<rparr>"
  obtain ob' where "observerRef (flush (tempNodes s) ?s0) = Some ob'"
    and "s_root ob' = r" and "s_rootMargin ob' = rm"
    using sensor_flush [of ?s0 "\<lparr>s_root = r, s_rootMargin = rm, targets = []\<rparr>" "tempNodes s"]
    by auto
  then show "\<exists>s' ob. rootRef pf rm (Some r) s = Inr s' \<and> observerRef s' = Some ob
         \<and> s_root ob = r \<and> s_rootMargin ob = rm"
    by (simp add: rootRef_attach [OF ok])
qed

theorem overflow_check_witness:
  "rootRef plain_platform (Some ''1000px 0px'') (Some 0) (init None) = Inl OverflowError
   \<and> (\<exists>s' ob. rootRef demo_platform (Some ''1000px 0px'') (Some 0) (init None) = Inr s'
         \<and> observerRef s' = Some ob \<and> s_root ob = 0 \<and> s_rootMargin ob = Some ''1000px 0px'')
   \<and> (\<exists>s' ob. rootRef plain_platform (Some ''0px 0px'') (Some 0) (init None) = Inr s'
         \<and> observerRef s' = Some ob \<and> s_root ob = 0 \<and> s_rootMargin ob = Some ''0px 0px'')"
proof -
  have a: "positive_margin plain_platform (Some ''1000px 0px'')
      \<and> no_overflow_auto (getComputedStyle plain_platform 0)"
    by (simp add: positive_margin_def no_overflow_auto_def plain_platform_def)
  have b: "\<not> no_overflow_auto (getComputedStyle demo_platform 0)"
    by (simp add: no_overflow_auto_def demo_platform_def)
  have c: "\<not> positive_margin plain_platform (Some ''0px 0px'')"
    by (simp add: positive_margin_def plain_platform_def)
  from a overflow_check [of plain_platform "Some ''1000px 0px''" 0 "init None" "[]"]
  have 1: "rootRef plain_platform (Some ''1000px 0px'') (Some 0) (init None) = Inl OverflowError"
    by blast
  from b overflow_check [of demo_platform "Some ''1000px 0px''" 0 "init None" "[]"]
  have 2: "\<exists>s' ob. rootRef demo_platform (Some ''1000px 0px'') (Some 0) (init None) = Inr s'
         \<and> observerRef s' = Some ob \<and> s_root ob = 0 \<and> s_rootMargin ob = Some ''1000px 0px''"
    by blast
  from c overflow_check [of plain_platform "Some ''0px 0px''" 0 "init None" "[]"]
  have 3: "\<exists>s' ob. rootRef plain_platform (Some ''0px 0px'') (Some 0) (init None) = Inr s'
         \<and> observerRef s' = Some ob \<and> s_root ob = 0 \<and> s_rootMargin ob = Some ''0px 0px''"
    by blast
  from 1 2 3 show ?thesis by blast
qed

end
